theory Spec2Isabelle
  imports Main "HOL-Library.AList"
begin

section \<open>Column names and the suffix pattern\<close>

text \<open>
  Column names are Python strings. They are modelled as \<open>string\<close>, one \<open>char\<close> per
  code point, which covers the names whose code points are below 256; on these the
  class \<^verbatim>\<open>\d\<close> of Python's \<^verbatim>\<open>re\<close> is exactly the ten ASCII digits.
\<close>

definition is_digit :: "char \<Rightarrow> bool" where
  "is_digit c = (c \<in> set ''0123456789'')"

definition newline :: char where
  "newline = CHR 0x0A"

text \<open>
  The anchor \<^verbatim>\<open>$\<close> (no MULTILINE flag) holds at the end of the string and also just
  before a newline that is the last character of the string. \<open>at_end r\<close> reads the
  text \<open>r\<close> that is left after the current position.
\<close>

definition at_end :: "string \<Rightarrow> bool" where
  "at_end r = (r = [] \<or> r = [newline])"

text \<open>
  \<open>match_here s\<close> tries the pattern \<^verbatim>\<open>\.\d+$\<close> at the first position of \<open>s\<close> and
  returns the text after the match. \<^verbatim>\<open>\d+\<close> is greedy and takes the whole run of
  digits; giving digits back would put \<^verbatim>\<open>$\<close> in front of a digit, where it never
  holds, so the longest run is the only candidate.
\<close>

definition match_here :: "string \<Rightarrow> string option" where
  "match_here s =
     (case s of
        [] \<Rightarrow> None
      | c # r \<Rightarrow>
          if c = CHR ''.'' \<and> takeWhile is_digit r \<noteq> [] \<and> at_end (dropWhile is_digit r)
          then Some (dropWhile is_digit r)
          else None)"

text \<open>
  \<^verbatim>\<open>re.sub(r'\.\d+$', '', col)\<close>: scan from the left; where the pattern matches, the
  match is replaced by the empty string and the scan goes on after it; elsewhere the
  character is kept.
\<close>

function re_sub :: "string \<Rightarrow> string" where
  "re_sub [] = []"
| "re_sub (c # r) =
     (case match_here (c # r) of
        Some rest \<Rightarrow> re_sub rest
      | None \<Rightarrow> c # re_sub r)"
  by pat_completeness auto
termination
  by (relation "measure length")
     (auto simp: match_here_def length_dropWhile_le less_Suc_eq_le split: if_splits)

text \<open>
  The decimal text of a natural number, as \<^verbatim>\<open>f"{i+1}"\<close> renders it.
\<close>

definition digit_char :: "nat \<Rightarrow> char" where
  "digit_char d = ''0123456789'' ! d"

function str_nat :: "nat \<Rightarrow> string" where
  "str_nat n = (if n < 10 then [digit_char n] else str_nat (n div 10) @ [digit_char (n mod 10)])"
  by pat_completeness auto
termination
  by (relation "measure id") auto

declare str_nat.simps [simp del]

section \<open>Tables\<close>

text \<open>
  A pandas DataFrame as the program uses it: an ordered list of labelled columns (labels
  may repeat) over the default row index \<^verbatim>\<open>RangeIndex(nrows)\<close>. A cell is
  \<open>Some v\<close>, or \<open>None\<close> for the missing value (NaN). \<^verbatim>\<open>read_file\<close> and
  \<^verbatim>\<open>save_file\<close> only hand tables over from and to pandas' readers and writers;
  the tables they return are the inputs here, the table saved is the result.
  \<^verbatim>\<open>pd.read_csv\<close> and \<^verbatim>\<open>pd.read_excel\<close> rename a header that repeats (the second
  \<open>B\<close> of a file becomes \<open>B.1\<close>), so the labels of a table that \<^verbatim>\<open>read_file\<close>
  returns are pairwise distinct: \<open>distinct (columns df)\<close>.
\<close>

datatype error = KeyError | ValueError

record 'v frame =
  cols :: "(string \<times> 'v option list) list"
  nrows :: nat

text \<open>\<^verbatim>\<open>df.columns.tolist()\<close>\<close>

definition columns :: "'v frame \<Rightarrow> string list" where
  "columns df = map fst (cols df)"

text \<open>\<^verbatim>\<open>pd.DataFrame()\<close>: no columns, no rows.\<close>

definition empty_frame :: "'v frame" where
  "empty_frame = \<lparr>cols = [], nrows = 0\<rparr>"

text \<open>
  \<^verbatim>\<open>df[key]\<close> for a string key: KeyError when no column has the label, the column
  as a Series when exactly one has it, and a DataFrame of all the columns with that
  label when several have it.
\<close>

datatype 'v selection = Series "'v option list" | SubFrame "'v frame"

definition getitem :: "'v frame \<Rightarrow> string \<Rightarrow> error + 'v selection" where
  "getitem df key =
     (case filter (\<lambda>(n, v). n = key) (cols df) of
        [] \<Rightarrow> Inl KeyError
      | [(n, v)] \<Rightarrow> Inr (Series v)
      | cs \<Rightarrow> Inr (SubFrame \<lparr>cols = cs, nrows = nrows df\<rparr>))"

text \<open>
  Aligning a Series over \<^verbatim>\<open>RangeIndex(length s)\<close> to \<^verbatim>\<open>RangeIndex(n)\<close>: rows the
  Series does not have are missing values.
\<close>

definition reindex :: "nat \<Rightarrow> 'v option list \<Rightarrow> 'v option list" where
  "reindex n s = map (\<lambda>i. if i < length s then s ! i else None) [0..<n]"

text \<open>
  \<^verbatim>\<open>DataFrame._ensure_valid_index\<close>: a frame without rows that is given a value of
  \<open>m > 0\<close> rows takes that value's index, and the columns it already has are
  re-indexed to it.
\<close>

definition ensure_valid_index :: "'v frame \<Rightarrow> nat \<Rightarrow> 'v frame" where
  "ensure_valid_index df m =
     (if nrows df = 0 \<and> 0 < m
      then \<lparr>cols = map (\<lambda>(n, v). (n, reindex m v)) (cols df), nrows = m\<rparr>
      else df)"

text \<open>
  Storing a column under a label: every column that already has the label is replaced
  where it stands; a new label is appended as the last column.
\<close>

definition assign_column ::
  "(string \<times> 'v option list) list \<Rightarrow> string \<Rightarrow> 'v option list \<Rightarrow> (string \<times> 'v option list) list"
where
  "assign_column cs key v =
     (if key \<in> set (map fst cs)
      then map (\<lambda>(n, w). if n = key then (n, v) else (n, w)) cs
      else cs @ [(key, v)])"

definition set_series :: "'v frame \<Rightarrow> string \<Rightarrow> 'v option list \<Rightarrow> 'v frame" where
  "set_series df key s =
     (let df' = ensure_valid_index df (length s)
      in df'\<lparr>cols := assign_column (cols df') key (reindex (nrows df') s)\<rparr>)"

text \<open>
  \<^verbatim>\<open>df[key] = value\<close> for a string key. A Series is aligned to the frame's rows and
  stored. A DataFrame value of one column is stored as that column; a DataFrame of any
  other number of columns cannot be stored under one label and raises ValueError.
\<close>

definition setitem :: "'v frame \<Rightarrow> string \<Rightarrow> 'v selection \<Rightarrow> error + 'v frame" where
  "setitem df key val =
     (case val of
        Series s \<Rightarrow> Inr (set_series df key s)
      | SubFrame f \<Rightarrow>
          (case cols f of
             [(n, v)] \<Rightarrow> Inr (set_series df key v)
           | _ \<Rightarrow> Inl ValueError))"

text \<open>\<^verbatim>\<open>pd.Series(dtype='object')\<close>: a Series without rows.\<close>

definition empty_series :: "'v selection" where
  "empty_series = Series []"

section \<open>Python dictionaries\<close>

text \<open>
  A dict keeps its keys in insertion order; storing under a key it has keeps the key's
  place (\<open>AList.update\<close>). \<open>dict_get\<close> is \<^verbatim>\<open>d.get(k, default)\<close>.
\<close>

definition dict_get :: "(string \<times> 'a) list \<Rightarrow> string \<Rightarrow> 'a \<Rightarrow> 'a" where
  "dict_get d k dflt = (case map_of d k of None \<Rightarrow> dflt | Some v \<Rightarrow> v)"

section \<open>\<^verbatim>\<open>remove_column_numbering\<close>\<close>

text \<open>The loop that fills \<^verbatim>\<open>column_mapping\<close>.\<close>

fun column_mapping :: "string list \<Rightarrow> (string \<rightharpoonup> string) \<Rightarrow> (string \<rightharpoonup> string)" where
  "column_mapping [] m = m"
| "column_mapping (col # rest) m = column_mapping rest (m(col \<mapsto> re_sub col))"

text \<open>\<^verbatim>\<open>[column_mapping[col] for col in df.columns]\<close>; a missing key raises KeyError.\<close>

fun renamed :: "(string \<rightharpoonup> string) \<Rightarrow> string list \<Rightarrow> error + string list" where
  "renamed m [] = Inr []"
| "renamed m (col # rest) =
     (case m col of
        None \<Rightarrow> Inl KeyError
      | Some new_col \<Rightarrow>
          (case renamed m rest of
             Inl e \<Rightarrow> Inl e
           | Inr names \<Rightarrow> Inr (new_col # names)))"

text \<open>
  \<^verbatim>\<open>df.columns = names\<close>: the labels are replaced position by position; a list of
  another length raises ValueError.
\<close>

definition set_columns :: "'v frame \<Rightarrow> string list \<Rightarrow> error + 'v frame" where
  "set_columns df names =
     (if length names = length (cols df)
      then Inr (df\<lparr>cols := zip names (map snd (cols df))\<rparr>)
      else Inl ValueError)"

definition remove_column_numbering :: "'v frame \<Rightarrow> error + 'v frame" where
  "remove_column_numbering df =
     (case renamed (column_mapping (columns df) Map.empty) (columns df) of
        Inl e \<Rightarrow> Inl e
      | Inr names \<Rightarrow> set_columns df names)"

section \<open>\<^verbatim>\<open>standardize_data\<close>\<close>

text \<open>The counting loops of lines 81-83 and 90-92.\<close>

fun count_columns :: "string list \<Rightarrow> (string \<times> nat) list \<Rightarrow> (string \<times> nat) list" where
  "count_columns [] counts = counts"
| "count_columns (col # rest) counts =
     count_columns rest (AList.update col (dict_get counts col 0 + 1) counts)"

text \<open>
  Lines 95-98: one entry (name, required, actual) for each name of the base counts that
  the new counts lack or have with a smaller count.
\<close>

definition missing_instances ::
  "(string \<times> nat) list \<Rightarrow> (string \<times> nat) list \<Rightarrow> (string \<times> nat \<times> nat) list"
where
  "missing_instances base_column_counts new_column_counts =
     map (\<lambda>(col, count). (col, count, dict_get new_column_counts col 0))
       (filter (\<lambda>(col, count).
                  (case map_of new_column_counts col of
                     None \<Rightarrow> True
                   | Some n \<Rightarrow> n < count))
          base_column_counts)"

text \<open>Lines 110-116: the names of the base table, each once, in order of first occurrence.\<close>

fun unique_columns :: "string list \<Rightarrow> string list \<Rightarrow> string set \<Rightarrow> string list" where
  "unique_columns [] unique processed = unique"
| "unique_columns (col # rest) unique processed =
     (if col \<notin> processed
      then unique_columns rest (unique @ [col]) (insert col processed)
      else unique_columns rest unique processed)"

text \<open>
  Lines 133-138, the loop over \<^verbatim>\<open>range(required_count)\<close>. \<open>insts\<close> is
  \<^verbatim>\<open>new_col_instances\<close>, a list of labels that are all equal to \<open>col\<close>, so
  \<^verbatim>\<open>new_df[new_col_instances[i]]\<close> selects by that label for every \<open>i\<close>.
\<close>

fun add_instances ::
  "'v frame \<Rightarrow> string \<Rightarrow> string list \<Rightarrow> nat list \<Rightarrow> 'v frame \<Rightarrow> error + 'v frame"
where
  "add_instances new_df col insts [] sdf = Inr sdf"
| "add_instances new_df col insts (i # rest) sdf =
     (case (if i < length insts
            then (case getitem new_df (insts ! i) of
                    Inl e \<Rightarrow> Inl e
                  | Inr v \<Rightarrow> setitem sdf (col @ ''_'' @ str_nat (i + 1)) v)
            else setitem sdf (col @ ''_'' @ str_nat (i + 1)) empty_series)
      of
        Inl e \<Rightarrow> Inl e
      | Inr sdf' \<Rightarrow> add_instances new_df col insts rest sdf')"

text \<open>Lines 120-138, the body of the loop over the unique names.\<close>

definition process_column ::
  "'v frame \<Rightarrow> (string \<times> nat) list \<Rightarrow> string \<Rightarrow> 'v frame \<Rightarrow> error + 'v frame"
where
  "process_column new_df base_column_counts col sdf =
     (let new_col_instances = filter (\<lambda>c. c = col) (columns new_df)
      in case map_of base_column_counts col of
           None \<Rightarrow> Inl KeyError
         | Some required_count \<Rightarrow>
             if required_count = 1
             then (case new_col_instances of
                     [] \<Rightarrow> setitem sdf col empty_series
                   | c # _ \<Rightarrow>
                       (case getitem new_df c of
                          Inl e \<Rightarrow> Inl e
                        | Inr v \<Rightarrow> setitem sdf col v))
             else add_instances new_df col new_col_instances [0..<required_count] sdf)"

fun process_columns ::
  "'v frame \<Rightarrow> (string \<times> nat) list \<Rightarrow> string list \<Rightarrow> 'v frame \<Rightarrow> error + 'v frame"
where
  "process_columns new_df base_column_counts [] sdf = Inr sdf"
| "process_columns new_df base_column_counts (col # rest) sdf =
     (case process_column new_df base_column_counts col sdf of
        Inl e \<Rightarrow> Inl e
      | Inr sdf' \<Rightarrow> process_columns new_df base_column_counts rest sdf')"

text \<open>
  Lines 106-138: the table as it stands before the labels are normalised. An exception
  (\<open>Inl\<close>) is caught by the handler of line 159, which prints it; nothing is saved.
\<close>

definition build_standardized :: "'v frame \<Rightarrow> 'v frame \<Rightarrow> error + 'v frame" where
  "build_standardized base_df new_df =
     (let base_columns = columns base_df
      in process_columns new_df (count_columns base_columns [])
           (unique_columns base_columns [] {}) empty_frame)"

text \<open>
  Lines 77-141 on the two tables read: the shortages that are printed as warnings, and
  the table handed to \<^verbatim>\<open>save_file\<close> or the exception raised on the way.
\<close>

definition standardize_data ::
  "'v frame \<Rightarrow> 'v frame \<Rightarrow> (string \<times> nat \<times> nat) list \<times> (error + 'v frame)"
where
  "standardize_data base_df new_df =
     (let base_column_counts = count_columns (columns base_df) [];
          new_column_counts = count_columns (columns new_df) [];
          missing = missing_instances base_column_counts new_column_counts
      in (missing,
          case build_standardized base_df new_df of
            Inl e \<Rightarrow> Inl e
          | Inr standardized_df \<Rightarrow> remove_column_numbering standardized_df))"

section \<open>Notions used in the statements\<close>

text \<open>
  The suffix of the specification: a dot followed by one or more digits that end the
  string. \<open>strip_dot_number\<close> removes one such suffix and changes nothing else.
\<close>

definition ends_in_dot_number :: "string \<Rightarrow> bool" where
  "ends_in_dot_number s =
     (let r = rev s
      in takeWhile is_digit r \<noteq> [] \<and>
         (case dropWhile is_digit r of [] \<Rightarrow> False | c # _ \<Rightarrow> c = CHR ''.''))"

definition strip_dot_number :: "string \<Rightarrow> string" where
  "strip_dot_number s =
     (if ends_in_dot_number s then rev (tl (dropWhile is_digit (rev s))) else s)"

text \<open>
  What the pattern of \<^verbatim>\<open>re_sub\<close> can see: the same suffix, at the end of the string
  or in front of a newline that is its last character.
\<close>

definition chomp :: "string \<Rightarrow> string" where
  "chomp s = (if s \<noteq> [] \<and> last s = newline then butlast s else s)"

definition numbered :: "string \<Rightarrow> bool" where
  "numbered s = ends_in_dot_number (chomp s)"

definition splits_at_suffix :: "string \<Rightarrow> bool" where
  "splits_at_suffix s =
     (\<exists>p ds e. s = p @ CHR ''.'' # ds @ e \<and> ds \<noteq> [] \<and> (\<forall>d\<in>set ds. is_digit d) \<and> at_end e)"

text \<open>
  The names of a list, each once, in order of first occurrence; the labels the program
  plans for a base name with \<open>k\<close> instances (the bare name when \<open>k = 1\<close>, else the
  name with \<open>_1\<close> to \<open>_k\<close>), and the labels planned for a whole base table.
\<close>

fun first_occurrences :: "'a list \<Rightarrow> 'a list" where
  "first_occurrences [] = []"
| "first_occurrences (x # xs) = x # removeAll x (first_occurrences xs)"

definition instance_label :: "string \<Rightarrow> nat \<Rightarrow> nat \<Rightarrow> string" where
  "instance_label name k i = (if k = 1 then name else name @ ''_'' @ str_nat (i + 1))"

definition instance_labels :: "string \<Rightarrow> nat \<Rightarrow> string list" where
  "instance_labels name k = map (instance_label name k) [0..<k]"

definition planned_labels :: "string list \<Rightarrow> string list" where
  "planned_labels base_columns =
     concat (map (\<lambda>name. instance_labels name (count_list base_columns name))
               (first_occurrences base_columns))"







section \<open>The suffix pattern\<close>

lemma dot_not_digit [simp]: "\<not> is_digit CHR ''.''"
  by (simp add: is_digit_def)

lemma newline_not_digit [simp]: "\<not> is_digit newline"
  by (simp add: is_digit_def newline_def)

lemma underscore_not_digit [simp]: "\<not> is_digit CHR ''_''"
  by (simp add: is_digit_def)

lemma at_end_simps [simp]: "at_end []" "at_end [newline]" "\<not> at_end (a # b # r)"
  by (simp_all add: at_end_def)

lemma re_sub_at_end: "at_end e \<Longrightarrow> re_sub e = e"
  by (auto simp: at_end_def match_here_def)

lemma at_end_no_digits:
  "at_end e \<Longrightarrow> takeWhile is_digit e = []" "at_end e \<Longrightarrow> dropWhile is_digit e = e"
  by (auto simp: at_end_def)

lemma takeWhile_digits_end:
  "\<forall>d\<in>set ds. is_digit d \<Longrightarrow> at_end e \<Longrightarrow> takeWhile is_digit (ds @ e) = ds"
  by (induction ds) (auto simp: at_end_no_digits)

lemma dropWhile_digits_end:
  "\<forall>d\<in>set ds. is_digit d \<Longrightarrow> at_end e \<Longrightarrow> dropWhile is_digit (ds @ e) = e"
  by (induction ds) (auto simp: at_end_no_digits)

lemma takeWhile_digits_stop:
  "\<forall>d\<in>set ds. is_digit d \<Longrightarrow> \<not> is_digit x \<Longrightarrow> takeWhile is_digit (ds @ x # r) = ds"
  by (induction ds) auto

lemma dropWhile_digits_stop:
  "\<forall>d\<in>set ds. is_digit d \<Longrightarrow> \<not> is_digit x \<Longrightarrow> dropWhile is_digit (ds @ x # r) = x # r"
  by (induction ds) auto

lemma match_here_suffix:
  "ds \<noteq> [] \<Longrightarrow> \<forall>d\<in>set ds. is_digit d \<Longrightarrow> at_end e \<Longrightarrow>
   match_here (CHR ''.'' # ds @ e) = Some e"
  by (simp add: match_here_def takeWhile_digits_end dropWhile_digits_end at_end_no_digits)

lemma dropWhile_keeps_nondigit:
  "\<not> is_digit x \<Longrightarrow> \<exists>q. dropWhile is_digit (p @ x # r) = q @ x # r"
  by (induction p) auto

lemma match_here_blocked:
  "\<not> is_digit x \<Longrightarrow> r \<noteq> [] \<Longrightarrow> match_here (c # p @ x # r) = None"
proof -
  assume a: "\<not> is_digit x" "r \<noteq> []"
  obtain q where q: "dropWhile is_digit (p @ x # r) = q @ x # r"
    using dropWhile_keeps_nondigit [OF a(1)] by blast
  have "\<not> at_end (q @ x # r)"
    using a(2) by (cases q; cases r) (auto simp: at_end_def)
  then show ?thesis
    by (simp add: match_here_def q)
qed

lemma re_sub_strips:
  "ds \<noteq> [] \<Longrightarrow> \<forall>d\<in>set ds. is_digit d \<Longrightarrow> at_end e \<Longrightarrow>
   re_sub (p @ CHR ''.'' # ds @ e) = p @ e"
proof (induction p)
  case Nil
  then show ?case
    by (simp add: match_here_suffix re_sub_at_end)
next
  case (Cons c p)
  have "match_here (c # p @ CHR ''.'' # ds @ e) = None"
    using Cons.prems(1) by (intro match_here_blocked) auto
  then show ?case
    using Cons by simp
qed

lemma re_sub_unchanged:
  "\<not> splits_at_suffix s \<Longrightarrow> re_sub s = s"
proof (induction s)
  case Nil
  then show ?case by simp
next
  case (Cons c r)
  have "match_here (c # r) = None"
  proof (rule ccontr)
    assume "match_here (c # r) \<noteq> None"
    then have c: "c = CHR ''.''" and t: "takeWhile is_digit r \<noteq> []"
      and e: "at_end (dropWhile is_digit r)"
      by (auto simp: match_here_def split: if_splits)
    have "c # r = [] @ CHR ''.'' # takeWhile is_digit r @ dropWhile is_digit r"
      using c by simp
    moreover have "\<forall>d\<in>set (takeWhile is_digit r). is_digit d"
      by (auto dest: set_takeWhileD)
    ultimately have "splits_at_suffix (c # r)"
      unfolding splits_at_suffix_def using t e by blast
    with Cons.prems show False by simp
  qed
  moreover have "\<not> splits_at_suffix r"
  proof
    assume "splits_at_suffix r"
    then obtain p ds e where "r = p @ CHR ''.'' # ds @ e" "ds \<noteq> []"
      "\<forall>d\<in>set ds. is_digit d" "at_end e"
      unfolding splits_at_suffix_def by blast
    then have "c # r = (c # p) @ CHR ''.'' # ds @ e" by simp
    then have "splits_at_suffix (c # r)"
      unfolding splits_at_suffix_def
      using \<open>ds \<noteq> []\<close> \<open>\<forall>d\<in>set ds. is_digit d\<close> \<open>at_end e\<close> by blast
    with Cons.prems show False by simp
  qed
  ultimately show ?case
    using Cons.IH by simp
qed

lemma ends_in_dot_number_iff:
  "ends_in_dot_number s \<longleftrightarrow>
   (\<exists>p ds. s = p @ CHR ''.'' # ds \<and> ds \<noteq> [] \<and> (\<forall>d\<in>set ds. is_digit d))"
proof
  assume a: "ends_in_dot_number s"
  define r where "r = rev s"
  from a obtain q where t: "takeWhile is_digit r \<noteq> []" and d: "dropWhile is_digit r = CHR ''.'' # q"
    unfolding ends_in_dot_number_def r_def by (auto simp: Let_def split: list.splits)
  have "r = takeWhile is_digit r @ CHR ''.'' # q"
    using takeWhile_dropWhile_id [of is_digit r] d by simp
  then have "rev r = rev (takeWhile is_digit r @ CHR ''.'' # q)"
    by simp
  then have "s = rev q @ CHR ''.'' # rev (takeWhile is_digit r)"
    by (simp add: r_def)
  moreover have "\<forall>d\<in>set (rev (takeWhile is_digit r)). is_digit d"
    by (auto dest: set_takeWhileD)
  ultimately show "\<exists>p ds. s = p @ CHR ''.'' # ds \<and> ds \<noteq> [] \<and> (\<forall>d\<in>set ds. is_digit d)"
    using t by (metis rev_is_Nil_conv)
next
  assume "\<exists>p ds. s = p @ CHR ''.'' # ds \<and> ds \<noteq> [] \<and> (\<forall>d\<in>set ds. is_digit d)"
  then obtain p ds where s: "s = p @ CHR ''.'' # ds" and ds: "ds \<noteq> []" "\<forall>d\<in>set ds. is_digit d"
    by blast
  have r: "rev s = rev ds @ CHR ''.'' # rev p"
    by (simp add: s)
  have "takeWhile is_digit (rev s) = rev ds" "dropWhile is_digit (rev s) = CHR ''.'' # rev p"
    using ds(2) by (simp_all add: r takeWhile_digits_stop dropWhile_digits_stop)
  then show "ends_in_dot_number s"
    using ds(1) by (simp add: ends_in_dot_number_def)
qed

lemma strip_dot_number_split:
  "ds \<noteq> [] \<Longrightarrow> \<forall>d\<in>set ds. is_digit d \<Longrightarrow> strip_dot_number (p @ CHR ''.'' # ds) = p"
proof -
  assume ds: "ds \<noteq> []" "\<forall>d\<in>set ds. is_digit d"
  have "ends_in_dot_number (p @ CHR ''.'' # ds)"
    using ds ends_in_dot_number_iff by blast
  moreover have "dropWhile is_digit (rev ds @ CHR ''.'' # rev p) = CHR ''.'' # rev p"
    using ds(2) by (simp add: dropWhile_digits_stop)
  ultimately show ?thesis
    by (simp add: strip_dot_number_def)
qed

lemma numbered_iff: "numbered s \<longleftrightarrow> splits_at_suffix s"
proof
  assume "numbered s"
  then obtain p ds where c: "chomp s = p @ CHR ''.'' # ds" and ds: "ds \<noteq> []" "\<forall>d\<in>set ds. is_digit d"
    unfolding numbered_def ends_in_dot_number_iff by blast
  have "\<exists>e. at_end e \<and> s = chomp s @ e"
  proof (cases "s \<noteq> [] \<and> last s = newline")
    case True
    then have "butlast s @ [newline] = s"
      by (metis append_butlast_last_id)
    with True have "s = chomp s @ [newline]"
      by (simp add: chomp_def)
    then show ?thesis by (metis at_end_simps(2))
  next
    case False
    then have "s = chomp s @ []" by (auto simp: chomp_def)
    then show ?thesis by (metis at_end_simps(1))
  qed
  then obtain e where "at_end e" "s = (p @ CHR ''.'' # ds) @ e"
    using c by metis
  then show "splits_at_suffix s"
    unfolding splits_at_suffix_def using ds by auto
next
  assume "splits_at_suffix s"
  then obtain p ds e where s: "s = p @ CHR ''.'' # ds @ e" and ds: "ds \<noteq> []" "\<forall>d\<in>set ds. is_digit d"
    and e: "at_end e"
    unfolding splits_at_suffix_def by blast
  have "chomp s = p @ CHR ''.'' # ds"
  proof (cases "e = []")
    case True
    have "last s = last ds" using ds(1) by (simp add: s True)
    moreover have "is_digit (last ds)" using ds by simp
    ultimately have "last s \<noteq> newline" by auto
    then show ?thesis by (simp add: chomp_def s True)
  next
    case False
    then have "e = [newline]" using e by (simp add: at_end_def)
    then have "s = (p @ CHR ''.'' # ds) @ [newline]" by (simp add: s)
    then show ?thesis by (simp only: chomp_def butlast_snoc last_snoc) simp
  qed
  then show "numbered s"
    unfolding numbered_def ends_in_dot_number_iff using ds by blast
qed

lemma re_sub_fixed_iff: "re_sub s = s \<longleftrightarrow> \<not> numbered s"
proof
  assume f: "re_sub s = s"
  show "\<not> numbered s"
  proof
    assume "numbered s"
    then obtain p ds e where s: "s = p @ CHR ''.'' # ds @ e" and ds: "ds \<noteq> []" "\<forall>d\<in>set ds. is_digit d"
      and e: "at_end e"
      unfolding numbered_iff splits_at_suffix_def by blast
    have "re_sub s = p @ e"
      unfolding s using ds e by (rule re_sub_strips)
    then have "length (re_sub s) < length s" by (simp add: s)
    with f show False by simp
  qed
next
  assume "\<not> numbered s"
  then show "re_sub s = s"
    by (simp add: numbered_iff re_sub_unchanged)
qed

lemma re_sub_no_final_newline:
  "s = [] \<or> last s \<noteq> newline \<Longrightarrow> re_sub s = strip_dot_number s"
proof (cases "numbered s")
  case False
  assume "s = [] \<or> last s \<noteq> newline"
  then have "chomp s = s" by (auto simp: chomp_def)
  with False have "\<not> ends_in_dot_number s" by (simp add: numbered_def)
  then show ?thesis
    using False by (simp add: strip_dot_number_def re_sub_fixed_iff)
next
  case True
  assume n: "s = [] \<or> last s \<noteq> newline"
  then have "chomp s = s" by (auto simp: chomp_def)
  with True obtain p ds where s: "s = p @ CHR ''.'' # ds" and ds: "ds \<noteq> []" "\<forall>d\<in>set ds. is_digit d"
    unfolding numbered_def ends_in_dot_number_iff by auto
  have "re_sub (p @ CHR ''.'' # ds @ []) = p @ []"
    using ds by (intro re_sub_strips) auto
  then show ?thesis
    using ds by (simp add: s strip_dot_number_split)
qed

section \<open>Renaming, counting, and the stores of a run\<close>

subsection \<open>remove_column_numbering\<close>

lemma column_mapping_lookup:
  "column_mapping cs m c = (if c \<in> set cs then Some (re_sub c) else m c)"
  by (induction cs arbitrary: m) auto

lemma renamed_all:
  "\<forall>c\<in>set cs. m c = Some (f c) \<Longrightarrow> renamed m cs = Inr (map f cs)"
  by (induction cs) auto

lemma remove_column_numbering_eq:
  "remove_column_numbering df =
   Inr (df\<lparr>cols := zip (map re_sub (columns df)) (map snd (cols df))\<rparr>)"
proof -
  have "renamed (column_mapping (columns df) Map.empty) (columns df)
        = Inr (map re_sub (columns df))"
    by (rule renamed_all) (simp add: column_mapping_lookup)
  then show ?thesis
    by (simp add: remove_column_numbering_def set_columns_def columns_def)
qed


subsection \<open>counting\<close>

lemma dict_get_update:
  "dict_get (AList.update k v d) c dflt = (if c = k then v else dict_get d c dflt)"
  by (simp add: dict_get_def update_conv')

lemma count_columns_distinct:
  "distinct (map fst d) \<Longrightarrow> distinct (map fst (count_columns cs d))"
  by (induction cs arbitrary: d) (auto simp: distinct_update)

lemma count_columns_lookup:
  "map_of (count_columns cs d) c =
   (if c \<in> set cs then Some (dict_get d c 0 + count_list cs c) else map_of d c)"
proof (induction cs arbitrary: d)
  case Nil
  then show ?case by simp
next
  case (Cons x cs)
  show ?case
    by (simp add: Cons.IH dict_get_update update_conv')
qed

lemma count_columns_empty_lookup:
  "map_of (count_columns cs []) c = (if c \<in> set cs then Some (count_list cs c) else None)"
  by (simp add: count_columns_lookup dict_get_def)

lemma count_columns_entries:
  "(c, k) \<in> set (count_columns cs []) \<longleftrightarrow> c \<in> set cs \<and> k = count_list cs c"
proof -
  have "distinct (map fst (count_columns cs []))"
    by (rule count_columns_distinct) simp
  then have "(c, k) \<in> set (count_columns cs []) \<longleftrightarrow> map_of (count_columns cs []) c = Some k"
    by simp
  then show ?thesis
    by (auto simp: count_columns_empty_lookup)
qed

lemma dict_get_counts:
  "dict_get (count_columns cs []) c 0 = count_list cs c"
  by (simp add: dict_get_def count_columns_empty_lookup)

subsection \<open>unique names\<close>

lemma set_first_occurrences [simp]: "set (first_occurrences xs) = set xs"
  by (induction xs) auto

lemma distinct_first_occurrences [simp]: "distinct (first_occurrences xs)"
  by (induction xs) (auto simp: distinct_removeAll)

lemma unique_columns_general:
  "unique_columns cs u (set u) = u @ filter (\<lambda>x. x \<notin> set u) (first_occurrences cs)"
proof (induction cs arbitrary: u)
  case Nil
  then show ?case by simp
next
  case (Cons c cs)
  show ?case
  proof (cases "c \<in> set u")
    case True
    have "filter (\<lambda>x. x \<notin> set u) (removeAll c (first_occurrences cs))
          = filter (\<lambda>x. x \<notin> set u) (first_occurrences cs)"
      using True by (auto simp: removeAll_filter_not_eq intro: filter_cong)
    then show ?thesis
      using True Cons.IH [of u] by simp
  next
    case False
    have "unique_columns (c # cs) u (set u) = unique_columns cs (u @ [c]) (set (u @ [c]))"
      using False by simp
    also have "\<dots> = (u @ [c]) @ filter (\<lambda>x. x \<notin> set (u @ [c])) (first_occurrences cs)"
      by (rule Cons.IH)
    also have "filter (\<lambda>x. x \<notin> set (u @ [c])) (first_occurrences cs)
               = filter (\<lambda>x. x \<notin> set u) (removeAll c (first_occurrences cs))"
      by (auto simp: removeAll_filter_not_eq intro: filter_cong)
    finally show ?thesis
      using False by simp
  qed
qed

lemma unique_columns_eq: "unique_columns cs [] {} = first_occurrences cs"
  using unique_columns_general [of cs "[]"] by simp

subsection \<open>labels after a store\<close>

lemma columns_ensure_valid_index [simp]:
  "columns (ensure_valid_index df m) = columns df"
  by (auto simp: ensure_valid_index_def columns_def)

lemma map_fst_assign_column:
  "map fst (assign_column cs key v) =
   (if key \<in> set (map fst cs) then map fst cs else map fst cs @ [key])"
  by (induction cs) (auto simp: assign_column_def)

lemma columns_set_series:
  "columns (set_series df key s) =
   (if key \<in> set (columns df) then columns df else columns df @ [key])"
proof -
  have "map fst (cols (ensure_valid_index df (length s))) = columns df"
    using columns_ensure_valid_index [of df "length s"] by (simp add: columns_def)
  then show ?thesis
    by (simp add: set_series_def Let_def columns_def map_fst_assign_column)
qed

lemma set_columns_setitem:
  "setitem sdf key v = Inr out \<Longrightarrow> set (columns out) = insert key (set (columns sdf))"
  by (auto simp: setitem_def columns_set_series split: selection.splits list.splits if_splits)

lemma set_columns_add_instances:
  "add_instances new_df col insts is sdf = Inr out \<Longrightarrow>
   set (columns out) = set (columns sdf) \<union> (\<lambda>i. col @ ''_'' @ str_nat (i + 1)) ` set is"
proof (induction "is" arbitrary: sdf)
  case Nil
  then show ?case by simp
next
  case (Cons i rest)
  from Cons.prems obtain mid where
    m: "(if i < length insts
         then (case getitem new_df (insts ! i) of
                 Inl e \<Rightarrow> Inl e
               | Inr v \<Rightarrow> setitem sdf (col @ ''_'' @ str_nat (i + 1)) v)
         else setitem sdf (col @ ''_'' @ str_nat (i + 1)) empty_series) = Inr mid"
    and r: "add_instances new_df col insts rest mid = Inr out"
    by (auto split: sum.splits)
  have "set (columns mid) = insert (col @ ''_'' @ str_nat (i + 1)) (set (columns sdf))"
    using m by (auto split: if_splits sum.splits dest: set_columns_setitem)
  then show ?case
    using Cons.IH [OF r] by auto
qed

lemma set_instance_labels:
  "set (instance_labels col k) =
   (if k = 1 then {col} else (\<lambda>i. col @ ''_'' @ str_nat (i + 1)) ` {0..<k})"
  by (auto simp: instance_labels_def instance_label_def)

lemma set_columns_process_column:
  assumes "process_column new_df counts col sdf = Inr out" and "map_of counts col = Some k"
  shows "set (columns out) = set (columns sdf) \<union> set (instance_labels col k)"
proof (cases "k = 1")
  case True
  then have "set (columns out) = insert col (set (columns sdf))"
    using assms
    by (auto simp: process_column_def Let_def split: list.splits sum.splits
             dest: set_columns_setitem)
  then show ?thesis
    using True by (simp add: set_instance_labels)
next
  case False
  then have "add_instances new_df col (filter (\<lambda>c. c = col) (columns new_df)) [0..<k] sdf = Inr out"
    using assms by (simp add: process_column_def Let_def)
  then show ?thesis
    using False by (simp add: set_columns_add_instances set_instance_labels)
qed

lemma set_columns_process_columns:
  assumes "process_columns new_df counts us sdf = Inr out"
    and "\<forall>c\<in>set us. map_of counts c = Some (cnt c)"
  shows "set (columns out) = set (columns sdf) \<union> (\<Union>c\<in>set us. set (instance_labels c (cnt c)))"
  using assms
proof (induction us arbitrary: sdf)
  case Nil
  then show ?case by simp
next
  case (Cons c us)
  from Cons.prems(1) obtain mid where
    m: "process_column new_df counts c sdf = Inr mid"
    and r: "process_columns new_df counts us mid = Inr out"
    by (auto split: sum.splits)
  have "set (columns mid) = set (columns sdf) \<union> set (instance_labels c (cnt c))"
    using m Cons.prems(2) by (simp add: set_columns_process_column)
  moreover have "set (columns out) = set (columns mid) \<union> (\<Union>c\<in>set us. set (instance_labels c (cnt c)))"
    using Cons.IH [OF r] Cons.prems(2) by simp
  ultimately show ?case
    by auto
qed

subsection \<open>selecting from the target\<close>






subsection \<open>a run without repeated target labels is a sequence of stores\<close>




subsection \<open>a sequence of stores under distinct labels\<close>




lemma reindex_zero [simp]: "reindex 0 s = []"
  by (simp add: reindex_def)

lemma length_reindex [simp]: "length (reindex n s) = n"
  by (simp add: reindex_def)




subsection \<open>the table that is built\<close>





subsection \<open>generated labels keep their suffix\<close>

lemma is_digit_digit_char: "d < 10 \<Longrightarrow> is_digit (digit_char d)"
proof -
  assume "d < 10"
  then have "d \<in> {0, 1, 2, 3, 4, 5, 6, 7, 8, 9}"
    by auto
  then show ?thesis
    by (auto simp: digit_char_def is_digit_def)
qed

lemma str_nat_digits: "str_nat n \<noteq> [] \<and> (\<forall>d\<in>set (str_nat n). is_digit d)"
proof (induction n rule: str_nat.induct)
  case (1 n)
  show ?case
  proof (cases "n < 10")
    case True
    then show ?thesis
      by (simp add: str_nat.simps [of n] is_digit_digit_char)
  next
    case False
    then show ?thesis
      using "1.IH" by (simp add: str_nat.simps [of n] is_digit_digit_char)
  qed
qed

lemma underscore_number_not_numbered:
  assumes "ds \<noteq> []" and "\<forall>d\<in>set ds. is_digit d"
  shows "\<not> numbered (c @ ''_'' @ ds)"
proof -
  have "last (c @ ''_'' @ ds) = last ds"
    using assms(1) by simp
  moreover have "is_digit (last ds)"
    using assms by simp
  ultimately have "last (c @ ''_'' @ ds) \<noteq> newline"
    by auto
  then have "chomp (c @ ''_'' @ ds) = c @ ''_'' @ ds"
    by (simp add: chomp_def)
  moreover have "rev (c @ ''_'' @ ds) = rev ds @ CHR ''_'' # rev c"
    by simp
  moreover have "dropWhile is_digit (rev ds @ CHR ''_'' # rev c) = CHR ''_'' # rev c"
    using assms(2) by (simp add: dropWhile_digits_stop)
  ultimately show ?thesis
    by (simp add: numbered_def ends_in_dot_number_def)
qed

lemma re_sub_generated_label:
  "re_sub (c @ ''_'' @ str_nat n) = c @ ''_'' @ str_nat n"
  using str_nat_digits [of n] underscore_number_not_numbered [of "str_nat n" c]
  by (simp add: re_sub_fixed_iff)

subsection \<open>number of planned labels\<close>

lemma length_instance_labels [simp]: "length (instance_labels name k) = k"
  by (simp add: instance_labels_def)


subsection \<open>target columns outside the base names\<close>

lemma filter_label_restrict:
  "c \<in> S \<Longrightarrow>
   filter (\<lambda>(n, v). n = c) (filter (\<lambda>(n, v). n \<in> S) cs) = filter (\<lambda>(n, v). n = c) cs"
  by (induction cs) auto

lemma getitem_restrict:
  "c \<in> S \<Longrightarrow> getitem (df\<lparr>cols := filter (\<lambda>(n, v). n \<in> S) (cols df)\<rparr>) c = getitem df c"
  by (simp add: getitem_def filter_label_restrict del: filter_filter split: list.splits)

lemma columns_restrict:
  "columns (df\<lparr>cols := filter (\<lambda>(n, v). n \<in> S) (cols df)\<rparr>) = filter (\<lambda>n. n \<in> S) (columns df)"
  by (simp add: columns_def filter_map comp_def case_prod_unfold)

lemma instances_restrict:
  "c \<in> S \<Longrightarrow> filter (\<lambda>x. x = c) (filter (\<lambda>n. n \<in> S) xs) = filter (\<lambda>x. x = c) xs"
  by (induction xs) auto

lemma count_list_restrict:
  "c \<in> S \<Longrightarrow> count_list (filter (\<lambda>n. n \<in> S) xs) c = count_list xs c"
  by (induction xs) auto

lemma add_instances_cong:
  "\<forall>x\<in>set insts. getitem df1 x = getitem df2 x \<Longrightarrow>
   add_instances df1 col insts is sdf = add_instances df2 col insts is sdf"
proof (induction "is" arbitrary: sdf)
  case Nil
  then show ?case by simp
next
  case (Cons i rest)
  have "i < length insts \<Longrightarrow> getitem df1 (insts ! i) = getitem df2 (insts ! i)"
    using Cons.prems by simp
  then show ?case
    using Cons by (auto split: sum.splits)
qed

lemma process_column_restrict:
  assumes "c \<in> S"
  shows "process_column (df\<lparr>cols := filter (\<lambda>(n, v). n \<in> S) (cols df)\<rparr>) counts c sdf
         = process_column df counts c sdf"
proof -
  let ?r = "df\<lparr>cols := filter (\<lambda>(n, v). n \<in> S) (cols df)\<rparr>"
  have i: "filter (\<lambda>x. x = c) (columns ?r) = filter (\<lambda>x. x = c) (columns df)"
    using assms by (simp add: columns_restrict instances_restrict del: filter_filter)
  have g: "\<forall>x\<in>set (filter (\<lambda>x. x = c) (columns df)). getitem ?r x = getitem df x"
    using assms by (simp add: getitem_restrict)
  have a: "add_instances ?r c (filter (\<lambda>x. x = c) (columns df)) js sdf
           = add_instances df c (filter (\<lambda>x. x = c) (columns df)) js sdf" for js
    using g by (rule add_instances_cong)
  have h: "filter (\<lambda>x. x = c) (columns df) = x # xs \<Longrightarrow> getitem ?r x = getitem df x" for x xs
    using g by simp
  show ?thesis
    unfolding process_column_def i Let_def a
    by (auto split: option.splits list.splits dest: h)
qed

lemma process_columns_restrict:
  "set us \<subseteq> S \<Longrightarrow>
   process_columns (df\<lparr>cols := filter (\<lambda>(n, v). n \<in> S) (cols df)\<rparr>) counts us sdf
   = process_columns df counts us sdf"
  by (induction us arbitrary: sdf) (auto simp: process_column_restrict split: sum.splits)

lemma missing_instances_counts:
  "missing_instances (count_columns bc []) (count_columns tc []) =
   map (\<lambda>(col, count). (col, count, count_list tc col))
     (filter (\<lambda>(col, count). count_list tc col < count) (count_columns bc []))"
proof -
  have "(case map_of (count_columns tc []) col of None \<Rightarrow> True | Some n \<Rightarrow> n < count)
        = (count_list tc col < count)"
    if "(col, count) \<in> set (count_columns bc [])" for col count
  proof -
    have "count \<noteq> 0"
      using that by (simp add: count_columns_entries count_list_0_iff)
    then have "0 < count"
      by simp
    then show ?thesis
      by (auto simp: count_columns_empty_lookup)
  qed
  then have "filter (\<lambda>(col, count).
                 (case map_of (count_columns tc []) col of None \<Rightarrow> True | Some n \<Rightarrow> n < count))
               (count_columns bc [])
             = filter (\<lambda>(col, count). count_list tc col < count) (count_columns bc [])"
    by (intro filter_cong) auto
  then show ?thesis
    by (simp add: missing_instances_def dict_get_counts)
qed

lemma missing_instances_mem:
  "(c, k, a) \<in> set (missing_instances (count_columns bc []) (count_columns tc [])) \<longleftrightarrow>
   c \<in> set bc \<and> k = count_list bc c \<and> a = count_list tc c \<and> a < k"
  by (auto simp: missing_instances_counts count_columns_entries)

subsection \<open>the saved table\<close>

lemma set_planned_labels:
  "set (planned_labels xs) = (\<Union>c\<in>set xs. set (instance_labels c (count_list xs c)))"
  by (simp add: planned_labels_def)

lemma set_columns_build:
  assumes "build_standardized base_df new_df = Inr out"
  shows "set (columns out) = set (planned_labels (columns base_df))"
proof -
  have "process_columns new_df (count_columns (columns base_df) [])
          (first_occurrences (columns base_df)) empty_frame = Inr out"
    using assms by (simp add: build_standardized_def Let_def unique_columns_eq)
  moreover have "\<forall>c\<in>set (first_occurrences (columns base_df)).
          map_of (count_columns (columns base_df) []) c = Some (count_list (columns base_df) c)"
    by (simp add: count_columns_empty_lookup)
  ultimately have "set (columns out) = set (columns (empty_frame :: 'a frame)) \<union>
      (\<Union>c\<in>set (first_occurrences (columns base_df)).
          set (instance_labels c (count_list (columns base_df) c)))"
    by (rule set_columns_process_columns)
  then show ?thesis
    by (simp add: set_planned_labels empty_frame_def columns_def)
qed

lemma generated_label_planned:
  assumes "k \<noteq> 1" and "1 \<le> i" and "i \<le> k"
  shows "c @ ''_'' @ str_nat i \<in> set (instance_labels c k)"
proof -
  have "i - 1 \<in> {0..<k}" and "i = (i - 1) + 1"
    using assms by auto
  then have "c @ ''_'' @ str_nat i \<in> (\<lambda>j. c @ ''_'' @ str_nat (j + 1)) ` {0..<k}"
    by (metis (mono_tags, lifting) image_eqI)
  then show ?thesis
    using assms(1) by (simp add: set_instance_labels)
qed

lemma cols_renamed:
  "zip (map f (map fst cs)) (map snd cs) = map (\<lambda>(l, v). (f l, v)) cs"
  by (induction cs) auto

lemma standardize_data_saved:
  assumes "build_standardized base_df new_df = Inr out"
  shows "snd (standardize_data base_df new_df) =
         Inr (out\<lparr>cols := map (\<lambda>(l, v). (re_sub l, v)) (cols out)\<rparr>)"
proof -
  have "zip (map re_sub (columns out)) (map snd (cols out))
        = map (\<lambda>(l, v). (re_sub l, v)) (cols out)"
    by (simp only: columns_def cols_renamed)
  then show ?thesis
    using assms by (simp add: standardize_data_def Let_def remove_column_numbering_eq)
qed

subsection \<open>tables with pairwise distinct labels\<close>





subsection \<open>names without a newline\<close>

lemma set_strip_dot_number: "set (strip_dot_number s) \<subseteq> set s"
proof -
  have "set (tl ys) \<subseteq> set ys" for ys :: string
    by (cases ys) auto
  moreover have "set (dropWhile is_digit (rev s)) \<subseteq> set (rev s)"
    by (auto dest: set_dropWhileD)
  ultimately have "set (tl (dropWhile is_digit (rev s))) \<subseteq> set (rev s)"
    by blast
  then show ?thesis
    by (auto simp: strip_dot_number_def)
qed

lemma no_newline_not_last: "newline \<notin> set s \<Longrightarrow> s = [] \<or> last s \<noteq> newline"
  using last_in_set by fastforce

lemma re_sub_no_newline:
  "newline \<notin> set s \<Longrightarrow> re_sub s = strip_dot_number s"
  by (rule re_sub_no_final_newline) (rule no_newline_not_last)

lemma numbered_no_newline:
  "newline \<notin> set s \<Longrightarrow> numbered s = ends_in_dot_number s"
  using no_newline_not_last [of s] by (auto simp: numbered_def chomp_def)

section \<open>The suffix normalizer: C5 and C6\<close>

text \<open>
  C5: for every column name the normalizer removes exactly one suffix "dot followed by
  one or more digits" that ends the string, and nothing else. The four examples of the
  claim come out as stated. The name \<open>Field.1\<close> followed by a newline does not end in a
  dot and digits, so by the claim it stays as it is, yet the program removes \<open>.1\<close>
  from it: \<^verbatim>\<open>$\<close> also holds in front of a final newline.
\<close>

theorem suffix_removed_before_final_newline:
  "re_sub ''Field.1'' = ''Field'' \<and> re_sub ''Field.12'' = ''Field'' \<and>
   re_sub ''Field'' = ''Field'' \<and> re_sub ''Field.1.2'' = ''Field.1'' \<and>
   \<not> ends_in_dot_number (''Field.1'' @ [newline]) \<and>
   strip_dot_number (''Field.1'' @ [newline]) = ''Field.1'' @ [newline] \<and>
   re_sub (''Field.1'' @ [newline]) = ''Field'' @ [newline]"
  by (simp add: match_here_def is_digit_def at_end_def newline_def
        ends_in_dot_number_def strip_dot_number_def)

text \<open>
  C6, as stated: normalizing a second time returns the result of the first time
  unchanged. It fails on a name with two stacked suffixes, since each application
  removes one.
\<close>

theorem normalizer_not_idempotent:
  "re_sub (re_sub ''Field.1.2'') \<noteq> re_sub ''Field.1.2''"
  by (simp add: match_here_def is_digit_def at_end_def newline_def)

text \<open>
  C6, amended: for every name that contains no newline, the normalizer removes one
  dot-number suffix from the end of the name when there is one and changes nothing
  else; it returns a name without such a suffix unchanged; and applying it a second time
  returns the result of the first application unchanged exactly when that result does
  not end in a dot-number suffix.
\<close>

theorem normalizer_fixed_points:
  assumes "newline \<notin> set s"
  shows "re_sub s = strip_dot_number s \<and>
         (\<not> ends_in_dot_number s \<longrightarrow> re_sub s = s) \<and>
         (re_sub (re_sub s) = re_sub s \<longleftrightarrow> \<not> ends_in_dot_number (re_sub s))"
proof -
  have r: "re_sub s = strip_dot_number s"
    using assms by (rule re_sub_no_newline)
  have "newline \<notin> set (re_sub s)"
    using assms set_strip_dot_number [of s] by (auto simp: r)
  then have "numbered (re_sub s) = ends_in_dot_number (re_sub s)"
    by (rule numbered_no_newline)
  then have "re_sub (re_sub s) = re_sub s \<longleftrightarrow> \<not> ends_in_dot_number (re_sub s)"
    by (simp add: re_sub_fixed_iff)
  moreover have "\<not> ends_in_dot_number s \<longrightarrow> re_sub s = s"
    by (simp add: r strip_dot_number_def)
  ultimately show ?thesis
    using r by blast
qed

theorem normalizer_fixed_points_witness:
  "re_sub ''Field.1'' = strip_dot_number ''Field.1'' \<and>
   re_sub ''Field'' = ''Field'' \<and>
   re_sub (re_sub ''Field.1'') = re_sub ''Field.1''"
proof -
  have n1: "newline \<notin> set ''Field.1''" and n2: "newline \<notin> set ''Field''"
    by (simp_all add: newline_def)
  have a: "\<not> ends_in_dot_number ''Field''"
    by (simp add: ends_in_dot_number_def is_digit_def)
  have b: "\<not> ends_in_dot_number (re_sub ''Field.1'')"
    by (simp add: ends_in_dot_number_def is_digit_def newline_def match_here_def at_end_def)
  show ?thesis
    using normalizer_fixed_points [OF n1] normalizer_fixed_points [OF n2] a b by blast
qed

section \<open>Runs on given tables: C2 and C3\<close>

text \<open>
  C2: base columns A, B, B and target columns B, A, B with the one row b1, a1, b2 give,
  after normalization, the columns A, B, B with the row a1, b1, b2: A from the target's
  A, the first B from the target's first B, the second B from the target's second B.
  \<^verbatim>\<open>read_file\<close> returns these two tables with the second B labelled \<open>B.1\<close>. Every
  base label then has one instance, is matched in the target by its label, and the
  normalization turns \<open>B.1\<close> back into B: no shortage is recorded and the saved table is
  the one of the claim.
\<close>

theorem repeated_header_scenario:
  "standardize_data
     (\<lparr>cols = [(''A'', []), (''B'', []), (''B.1'', [])], nrows = 0\<rparr> :: string frame)
     \<lparr>cols = [(''B'', [Some ''b1'']), (''A'', [Some ''a1'']), (''B.1'', [Some ''b2''])],
      nrows = 1\<rparr>
   = ([], Inr \<lparr>cols = [(''A'', [Some ''a1'']), (''B'', [Some ''b1'']), (''B'', [Some ''b2''])],
               nrows = 1\<rparr>)"
  by code_simp

text \<open>
  C3: every column of the output has as many rows as the target. With base column A
  and a target of one row whose only column is X, nothing is copied, the empty Series
  stored under A keeps its zero rows, and the output has no row. When a later base
  column is found in the target, the empty column is filled up to the target's rows.
\<close>

theorem no_common_column_loses_rows:
  "standardize_data
     \<lparr>cols = [(''A'', [])], nrows = 0\<rparr>
     \<lparr>cols = [(''X'', [Some ''x1''])], nrows = 1\<rparr>
   = ([(''A'', 1, 0)], Inr \<lparr>cols = [(''A'', [])], nrows = 0\<rparr>) \<and>
   standardize_data
     \<lparr>cols = [(''A'', []), (''B'', [])], nrows = 0\<rparr>
     \<lparr>cols = [(''B'', [Some ''x1''])], nrows = 1\<rparr>
   = ([(''A'', 1, 0)], Inr \<lparr>cols = [(''A'', [None]), (''B'', [Some ''x1''])], nrows = 1\<rparr>)"
  by code_simp

section \<open>The labels of the standardized table: C1\<close>




section \<open>Renaming keeps the data: C8\<close>

text \<open>
  C8: \<^verbatim>\<open>remove_column_numbering\<close> changes only the column names. It always returns a
  table; the table has the normalized labels, the same number of columns, the same
  cells in every column in the same order, and the same rows.
\<close>

theorem renaming_keeps_data:
  "\<exists>out. remove_column_numbering df = Inr out \<and>
         columns out = map re_sub (columns df) \<and>
         length (cols out) = length (cols df) \<and>
         map snd (cols out) = map snd (cols df) \<and>
         nrows out = nrows df"
  by (simp add: remove_column_numbering_eq columns_def)

section \<open>Names of the instances: C4\<close>

text \<open>
  C4: for a base name with instance count \<open>k\<close>, the output column is named with the bare
  name when \<open>k = 1\<close>, and the \<open>k\<close> output columns are named with the name followed by
  \<open>_1\<close> to \<open>_k\<close> when \<open>k > 1\<close>; normalization removes only dot-number suffixes, so
  the underscore suffixes are in the final output. Stated for every run that builds a
  table: its labels are the planned ones, the generated labels are fixed by the
  normalizer, and they are labels of the table that is saved.
\<close>

theorem instance_naming:
  assumes "build_standardized base_df new_df = Inr out"
    and "c \<in> set (columns base_df)"
    and "k = count_list (columns base_df) c"
  shows "set (columns out) = set (planned_labels (columns base_df)) \<and>
         (k = 1 \<longrightarrow> c \<in> set (columns out)) \<and>
         (k \<noteq> 1 \<longrightarrow>
            (\<forall>i\<in>{1..k}. c @ ''_'' @ str_nat i \<in> set (columns out) \<and>
                         re_sub (c @ ''_'' @ str_nat i) = c @ ''_'' @ str_nat i)) \<and>
         (\<exists>final. snd (standardize_data base_df new_df) = Inr final \<and>
                  columns final = map re_sub (columns out) \<and>
                  (k \<noteq> 1 \<longrightarrow> (\<forall>i\<in>{1..k}. c @ ''_'' @ str_nat i \<in> set (columns final))))"
proof -
  let ?final = "out\<lparr>cols := map (\<lambda>(l, v). (re_sub l, v)) (cols out)\<rparr>"
  have labels: "set (columns out) = set (planned_labels (columns base_df))"
    using assms(1) by (rule set_columns_build)
  have block: "set (instance_labels c k) \<subseteq> set (columns out)"
    using assms(2,3) by (auto simp: labels set_planned_labels)
  have one: "k = 1 \<longrightarrow> c \<in> set (columns out)"
    using block by (auto simp: set_instance_labels)
  have many: "c @ ''_'' @ str_nat i \<in> set (columns out)" if "k \<noteq> 1" "i \<in> {1..k}" for i
    using that block generated_label_planned [of k i c] by auto
  have saved: "snd (standardize_data base_df new_df) = Inr ?final"
    using assms(1) by (rule standardize_data_saved)
  have fin: "columns ?final = map re_sub (columns out)"
    by (simp add: columns_def comp_def case_prod_unfold)
  have kept: "c @ ''_'' @ str_nat i \<in> set (columns ?final)" if "k \<noteq> 1" "i \<in> {1..k}" for i
  proof -
    have "re_sub (c @ ''_'' @ str_nat i) \<in> re_sub ` set (columns out)"
      using many [OF that] by (rule imageI)
    then have "c @ ''_'' @ str_nat i \<in> re_sub ` set (columns out)"
      by (simp only: re_sub_generated_label)
    then show ?thesis
      by (simp only: fin set_map)
  qed
  from saved fin kept
  have "\<exists>final. snd (standardize_data base_df new_df) = Inr final \<and>
                columns final = map re_sub (columns out) \<and>
                (k \<noteq> 1 \<longrightarrow> (\<forall>i\<in>{1..k}. c @ ''_'' @ str_nat i \<in> set (columns final)))"
    by blast
  moreover have "k \<noteq> 1 \<longrightarrow>
            (\<forall>i\<in>{1..k}. c @ ''_'' @ str_nat i \<in> set (columns out) \<and>
                         re_sub (c @ ''_'' @ str_nat i) = c @ ''_'' @ str_nat i)"
    using many re_sub_generated_label by blast
  ultimately show ?thesis
    using labels one by blast
qed

theorem instance_naming_witness:
  "\<exists>final.
      snd (standardize_data
             (\<lparr>cols = [(''A'', []), (''B'', []), (''B'', [])], nrows = 0\<rparr> :: string frame)
             \<lparr>cols = [(''B'', [Some ''b1'']), (''A'', [Some ''a1''])], nrows = 1\<rparr>)
      = Inr final \<and>
      ''B_1'' \<in> set (columns final) \<and> ''B_2'' \<in> set (columns final)"
proof -
  let ?B = "\<lparr>cols = [(''A'', []), (''B'', []), (''B'', [])], nrows = 0\<rparr> :: string frame"
  let ?T = "\<lparr>cols = [(''B'', [Some ''b1'']), (''A'', [Some ''a1''])], nrows = 1\<rparr> :: string frame"
  let ?O = "\<lparr>cols = [(''A'', [Some ''a1'']), (''B_1'', [Some ''b1'']), (''B_2'', [None])],
             nrows = 1\<rparr> :: string frame"
  have b: "build_standardized ?B ?T = Inr ?O"
    by code_simp
  have c: "''B'' \<in> set (columns ?B)"
    by code_simp
  have k: "(2::nat) = count_list (columns ?B) ''B''"
    by code_simp
  have s1: "''B'' @ ''_'' @ str_nat 1 = ''B_1''" and s2: "''B'' @ ''_'' @ str_nat 2 = ''B_2''"
    by code_simp+
  obtain final where f: "snd (standardize_data ?B ?T) = Inr final"
      and l: "\<forall>i\<in>{1..2}. ''B'' @ ''_'' @ str_nat i \<in> set (columns final)"
    using instance_naming [OF b c k] by auto
  have "''B'' @ ''_'' @ str_nat 1 \<in> set (columns final)"
    and "''B'' @ ''_'' @ str_nat 2 \<in> set (columns final)"
    using l by simp_all
  then have "''B_1'' \<in> set (columns final)" and "''B_2'' \<in> set (columns final)"
    by (simp_all only: s1 s2)
  with f show ?thesis
    by blast
qed

section \<open>Shortages: C7\<close>




section \<open>Target columns that base does not name: C9\<close>

text \<open>
  C9: a target column whose name does not occur among the column names of base is
  dropped without notice. The shortages and the saved table (or the exception) are the
  same as on the target without these columns, and every shortage is about a name of
  base.
\<close>

theorem unmatched_target_columns_dropped:
  "standardize_data base_df
     (new_df\<lparr>cols := filter (\<lambda>(n, v). n \<in> set (columns base_df)) (cols new_df)\<rparr>)
   = standardize_data base_df new_df \<and>
   (\<forall>(c, k, a)\<in>set (fst (standardize_data base_df new_df)). c \<in> set (columns base_df))"
proof -
  let ?S = "set (columns base_df)"
  let ?r = "new_df\<lparr>cols := filter (\<lambda>(n, v). n \<in> ?S) (cols new_df)\<rparr>"
  have b: "build_standardized base_df ?r = build_standardized base_df new_df"
    by (simp add: build_standardized_def Let_def unique_columns_eq process_columns_restrict)
  have cnt: "count_list (columns ?r) col = count_list (columns new_df) col"
    if "(col, count) \<in> set (count_columns (columns base_df) [])" for col count
    using that by (simp add: count_columns_entries columns_restrict count_list_restrict)
  then have f: "filter (\<lambda>(col, count). count_list (columns ?r) col < count)
                     (count_columns (columns base_df) [])
                = filter (\<lambda>(col, count). count_list (columns new_df) col < count)
                     (count_columns (columns base_df) [])"
    by (intro filter_cong) auto
  have m: "missing_instances (count_columns (columns base_df) []) (count_columns (columns ?r) [])
        = missing_instances (count_columns (columns base_df) []) (count_columns (columns new_df) [])"
    unfolding missing_instances_counts f using cnt by (intro map_cong) auto
  have eq: "standardize_data base_df ?r = standardize_data base_df new_df"
    by (simp add: standardize_data_def Let_def b m)
  have "\<forall>(c, k, a)\<in>set (fst (standardize_data base_df new_df)). c \<in> set (columns base_df)"
    by (auto simp: standardize_data_def Let_def missing_instances_mem)
  with eq show ?thesis
    by blast
qed

theorem unmatched_target_columns_dropped_witness:
  "standardize_data (\<lparr>cols = [(''A'', [])], nrows = 0\<rparr> :: string frame)
     \<lparr>cols = [(''A'', [Some ''a1''])], nrows = 1\<rparr>
   = standardize_data \<lparr>cols = [(''A'', [])], nrows = 0\<rparr>
       \<lparr>cols = [(''X'', [Some ''x1'']), (''A'', [Some ''a1''])], nrows = 1\<rparr>"
  using unmatched_target_columns_dropped
    [of "\<lparr>cols = [(''A'', [])], nrows = 0\<rparr> :: string frame"
        "\<lparr>cols = [(''X'', [Some ''x1'']), (''A'', [Some ''a1''])], nrows = 1\<rparr>"]
  by (simp add: columns_def)

section \<open>The cells of base: C10\<close>

text \<open>
  C10: the result depends on the base table only through its sequence of column names.
  Two base tables with the same labels give the same shortages and the same saved table
  for the same target, whatever their cells and their number of rows.
\<close>

theorem base_data_irrelevant:
  "columns base1 = columns base2 \<Longrightarrow>
   standardize_data base1 new_df = standardize_data base2 new_df"
  by (simp add: standardize_data_def build_standardized_def)

theorem base_data_irrelevant_witness:
  "columns (\<lparr>cols = [(''A'', [Some ''1''])], nrows = 1\<rparr> :: string frame)
   = columns (\<lparr>cols = [(''A'', [Some ''2'', None])], nrows = 2\<rparr> :: string frame) \<and>
   standardize_data (\<lparr>cols = [(''A'', [Some ''1''])], nrows = 1\<rparr> :: string frame)
     \<lparr>cols = [(''A'', [Some ''t1''])], nrows = 1\<rparr>
   = standardize_data \<lparr>cols = [(''A'', [Some ''2'', None])], nrows = 2\<rparr>
       \<lparr>cols = [(''A'', [Some ''t1''])], nrows = 1\<rparr>"
proof -
  have h: "columns (\<lparr>cols = [(''A'', [Some ''1''])], nrows = 1\<rparr> :: string frame)
           = columns (\<lparr>cols = [(''A'', [Some ''2'', None])], nrows = 2\<rparr> :: string frame)"
    by (simp add: columns_def)
  from base_data_irrelevant [OF h] h show ?thesis
    by blast
qed

end
